theory Spec2Isabelle
  imports Main
begin

section \<open>The CSS selector builder of objects-tasks.js\<close>

text \<open>
  The class \<open>CssSelector\<close> and the facade \<open>cssSelectorBuilder\<close> are embedded with an
  explicit store: every \<open>new CssSelector(...)\<close> allocates a fresh address, the methods
  mutate the object at the address of \<open>this\<close>, and a combined selector holds the
  addresses of its two sides.
\<close>

subsection \<open>Data\<close>

text \<open>
  The type tags are the six string literals \<open>'element'\<close>, \<open>'id'\<close>, \<open>'class'\<close>,
  \<open>'attr'\<close>, \<open>'pseudoClass'\<close> and \<open>'pseudoElement'\<close>; no other tag is ever passed.
  The values stored are strings. The value given to the constructor, and so to an entry
  point of the facade, may also be \<open>null\<close>, which the constructor tests for.
\<close>

datatype kind = Element | Id | Class | Attr | PseudoClass | PseudoElement

text \<open>
  Both errors are thrown as \<open>new Error(message)\<close>.
  \<open>DuplicateFragmentError\<close> is the one with the message
  "Element, id and pseudo-element should not occur more than one time inside the selector",
  \<open>OrderViolationError\<close> the one with the message
  "Selector parts should be arranged in the following order: element, id, class, attribute,
  pseudo-class, pseudo-element".
\<close>

datatype error = DuplicateFragmentError | OrderViolationError

type_synonym ref = nat

record combination =
  selector1 :: ref
  combinator :: string
  selector2 :: ref

record CssSelector =
  parts :: "kind \<Rightarrow> string list option"
  hasElement :: bool
  hasId :: bool
  hasPseudoElement :: bool
  lastAdded :: "kind option"
  combined :: "combination option"

text \<open>The store: the object at address \<open>r\<close> is \<open>h ! r\<close>; objects are never freed.\<close>

type_synonym heap = "CssSelector list"

subsection \<open>Methods of \<open>CssSelector\<close> on the fields of \<open>this\<close>\<close>

text \<open>\<open>Array.prototype.indexOf\<close>: the first index holding the value, \<open>-1\<close> if there is none.\<close>

fun indexOf_from :: "int \<Rightarrow> 'a list \<Rightarrow> 'a \<Rightarrow> int" where
  "indexOf_from i [] x = - 1"
| "indexOf_from i (y # ys) x = (if y = x then i else indexOf_from (i + 1) ys x)"

definition indexOf :: "'a list \<Rightarrow> 'a \<Rightarrow> int" where
  "indexOf xs x = indexOf_from 0 xs x"

definition order :: "kind list" where
  "order = [Element, Id, Class, Attr, PseudoClass, PseudoElement]"

text \<open>
  \<open>validateOrder\<close> reads \<open>this.lastAdded\<close>, which is \<open>null\<close> (here \<open>None\<close>) until the first
  fragment is added; it assigns nothing.
\<close>

definition validateOrder :: "kind \<Rightarrow> CssSelector \<Rightarrow> error + unit" where
  "validateOrder nextType this =
     (let currentIndex = indexOf (map Some order) (lastAdded this);
          nextIndex = indexOf (map Some order) (Some nextType)
      in if currentIndex > nextIndex then Inl OrderViolationError else Inr ())"

text \<open>\<open>addPart\<close> creates the array of the type on first use and pushes the value at its end.\<close>

definition addPart :: "kind \<Rightarrow> string \<Rightarrow> CssSelector \<Rightarrow> CssSelector" where
  "addPart type v this =
     (let this1 = (if parts this type = None then this\<lparr>parts := (parts this)(type \<mapsto> [])\<rparr> else this)
      in case parts this1 type of
           None \<Rightarrow> this1
         | Some vs \<Rightarrow> this1\<lparr>parts := (parts this1)(type \<mapsto> vs @ [v])\<rparr>)"

text \<open>
  A method body maps the fields of \<open>this\<close> to the outcome (\<open>Inl\<close> a thrown error, \<open>Inr\<close> a
  normal return) and the fields as they are when the method is left.
\<close>

type_synonym member = "CssSelector \<Rightarrow> (error + unit) \<times> CssSelector"

definition element :: "string \<Rightarrow> member" where
  "element v this =
     (case validateOrder Element this of
        Inl e \<Rightarrow> (Inl e, this)
      | Inr _ \<Rightarrow>
          if hasElement this then (Inl DuplicateFragmentError, this)
          else (let this1 = addPart Element v this;
                    this2 = this1\<lparr>hasElement := True\<rparr>;
                    this3 = this2\<lparr>lastAdded := Some Element\<rparr>
                in (Inr (), this3)))"

definition id_m :: "string \<Rightarrow> member" where
  "id_m v this =
     (case validateOrder Id this of
        Inl e \<Rightarrow> (Inl e, this)
      | Inr _ \<Rightarrow>
          if hasId this then (Inl DuplicateFragmentError, this)
          else (let this1 = addPart Id v this;
                    this2 = this1\<lparr>hasId := True\<rparr>;
                    this3 = this2\<lparr>lastAdded := Some Id\<rparr>
                in (Inr (), this3)))"

definition class_m :: "string \<Rightarrow> member" where
  "class_m v this =
     (case validateOrder Class this of
        Inl e \<Rightarrow> (Inl e, this)
      | Inr _ \<Rightarrow>
          (let this1 = addPart Class v this;
               this2 = this1\<lparr>lastAdded := Some Class\<rparr>
           in (Inr (), this2)))"

definition attr :: "string \<Rightarrow> member" where
  "attr v this =
     (case validateOrder Attr this of
        Inl e \<Rightarrow> (Inl e, this)
      | Inr _ \<Rightarrow>
          (let this1 = addPart Attr v this;
               this2 = this1\<lparr>lastAdded := Some Attr\<rparr>
           in (Inr (), this2)))"

definition pseudoClass :: "string \<Rightarrow> member" where
  "pseudoClass v this =
     (case validateOrder PseudoClass this of
        Inl e \<Rightarrow> (Inl e, this)
      | Inr _ \<Rightarrow>
          (let this1 = addPart PseudoClass v this;
               this2 = this1\<lparr>lastAdded := Some PseudoClass\<rparr>
           in (Inr (), this2)))"

definition pseudoElement :: "string \<Rightarrow> member" where
  "pseudoElement v this =
     (case validateOrder PseudoElement this of
        Inl e \<Rightarrow> (Inl e, this)
      | Inr _ \<Rightarrow>
          if hasPseudoElement this then (Inl DuplicateFragmentError, this)
          else (let this1 = addPart PseudoElement v this;
                    this2 = this1\<lparr>hasPseudoElement := True\<rparr>;
                    this3 = this2\<lparr>lastAdded := Some PseudoElement\<rparr>
                in (Inr (), this3)))"

text \<open>The fragment-adding method of each kind.\<close>

fun add :: "kind \<Rightarrow> string \<Rightarrow> member" where
  "add Element = element"
| "add Id = id_m"
| "add Class = class_m"
| "add Attr = attr"
| "add PseudoClass = pseudoClass"
| "add PseudoElement = pseudoElement"

text \<open>
  The constructor, \<open>constructor(value = null, type = null)\<close>: the fields of a new object.
\<close>

definition constructor :: "string option \<Rightarrow> kind option \<Rightarrow> CssSelector" where
  "constructor v type =
     (let this = \<lparr>parts = Map.empty, hasElement = False, hasId = False,
                  hasPseudoElement = False, lastAdded = None, combined = None\<rparr>
      in case (v, type) of
           (Some v', Some type') \<Rightarrow>
             (let this1 = addPart type' v' this;
                  this2 = (if type' = Element then this1\<lparr>hasElement := True\<rparr>
                           else if type' = Id then this1\<lparr>hasId := True\<rparr>
                           else if type' = PseudoElement then this1\<lparr>hasPseudoElement := True\<rparr>
                           else this1)
              in this2\<lparr>lastAdded := Some type'\<rparr>)
         | _ \<Rightarrow> this)"

text \<open>The part of \<open>stringify\<close> after the test of \<open>this.combined\<close>: the loops over \<open>outputOrder\<close>.\<close>

definition outputOrder :: "kind list" where
  "outputOrder = [Element, Id, Class, Attr, PseudoClass, PseudoElement]"

fun prefix_of :: "kind \<Rightarrow> string" where
  "prefix_of Element = ''''"
| "prefix_of Id = ''#''"
| "prefix_of Class = ''.''"
| "prefix_of Attr = ''[''"
| "prefix_of PseudoClass = '':''"
| "prefix_of PseudoElement = ''::''"

fun suffix_of :: "kind \<Rightarrow> string" where
  "suffix_of Attr = '']''"
| "suffix_of _ = ''''"

definition stringify_parts :: "CssSelector \<Rightarrow> string" where
  "stringify_parts this =
     foldl (\<lambda>result type.
              case parts this type of
                None \<Rightarrow> result
              | Some vs \<Rightarrow>
                  foldl (\<lambda>result v. result @ prefix_of type @ v @ suffix_of type) result vs)
       '''' outputOrder"

subsection \<open>Calls on the store\<close>

text \<open>
  A call returns its outcome and the store it leaves. \<open>invoke m this\<close> is the call
  \<open>this.m(...)\<close> of a fragment-adding method: the body runs on the object at \<open>this\<close>,
  and a normal return yields \<open>this\<close> itself, for chaining.
\<close>

type_synonym 'a outcome = "(error + 'a) \<times> heap"

definition invoke :: "member \<Rightarrow> ref \<Rightarrow> heap \<Rightarrow> ref outcome" where
  "invoke m this h =
     (case m (h ! this) of
        (Inl e, obj) \<Rightarrow> (Inl e, h[this := obj])
      | (Inr _, obj) \<Rightarrow> (Inr this, h[this := obj]))"

definition new_CssSelector :: "string option \<Rightarrow> kind option \<Rightarrow> heap \<Rightarrow> ref outcome" where
  "new_CssSelector v type h = (Inr (length h), h @ [constructor v type])"

text \<open>The method \<open>combine(combinator, selector)\<close> of the class.\<close>

definition combine :: "string \<Rightarrow> ref \<Rightarrow> ref \<Rightarrow> heap \<Rightarrow> ref outcome" where
  "combine c selector this h =
     (case new_CssSelector None None h of
        (Inl e, h1) \<Rightarrow> (Inl e, h1)
      | (Inr r, h1) \<Rightarrow>
          (Inr r, h1[r := (h1 ! r)\<lparr>combined :=
                     Some \<lparr>selector1 = this, combinator = c, selector2 = selector\<rparr>\<rparr>]))"

text \<open>
  \<open>stringify\<close> follows the addresses held by combined selectors, so it is defined as a
  partial function: \<open>None\<close> stands for a call that does not return.
\<close>

partial_function (option) stringify :: "heap \<Rightarrow> ref \<Rightarrow> string option" where
  "stringify h this =
     (case combined (h ! this) of
        Some c \<Rightarrow>
          Option.bind (stringify h (selector1 c)) (\<lambda>selector1Str.
          Option.bind (stringify h (selector2 c)) (\<lambda>selector2Str.
            Some (selector1Str @ '' '' @ combinator c @ '' '' @ selector2Str)))
      | None \<Rightarrow> Some (stringify_parts (h ! this)))"

declare stringify.simps [code]

subsection \<open>The facade \<open>cssSelectorBuilder\<close>\<close>

text \<open>
  An entry point passes its argument on to the constructor as it is. The argument is a
  string, or \<open>None\<close> for \<open>null\<close> and for a call without an argument, where the default
  of the constructor's parameter makes the value \<open>null\<close>.
\<close>

definition cssSelectorBuilder_element :: "string option \<Rightarrow> heap \<Rightarrow> ref outcome" where
  "cssSelectorBuilder_element v h = new_CssSelector v (Some Element) h"

definition cssSelectorBuilder_id :: "string option \<Rightarrow> heap \<Rightarrow> ref outcome" where
  "cssSelectorBuilder_id v h = new_CssSelector v (Some Id) h"

definition cssSelectorBuilder_class :: "string option \<Rightarrow> heap \<Rightarrow> ref outcome" where
  "cssSelectorBuilder_class v h = new_CssSelector v (Some Class) h"

definition cssSelectorBuilder_attr :: "string option \<Rightarrow> heap \<Rightarrow> ref outcome" where
  "cssSelectorBuilder_attr v h = new_CssSelector v (Some Attr) h"

definition cssSelectorBuilder_pseudoClass :: "string option \<Rightarrow> heap \<Rightarrow> ref outcome" where
  "cssSelectorBuilder_pseudoClass v h = new_CssSelector v (Some PseudoClass) h"

definition cssSelectorBuilder_pseudoElement :: "string option \<Rightarrow> heap \<Rightarrow> ref outcome" where
  "cssSelectorBuilder_pseudoElement v h = new_CssSelector v (Some PseudoElement) h"

definition cssSelectorBuilder_combine :: "ref \<Rightarrow> string \<Rightarrow> ref \<Rightarrow> heap \<Rightarrow> ref outcome" where
  "cssSelectorBuilder_combine s1 c s2 h =
     (case new_CssSelector None None h of
        (Inl e, h1) \<Rightarrow> (Inl e, h1)
      | (Inr r, h1) \<Rightarrow>
          (Inr r, h1[r := (h1 ! r)\<lparr>combined :=
                     Some \<lparr>selector1 = s1, combinator = c, selector2 = s2\<rparr>\<rparr>]))"

text \<open>The facade entry point of each kind.\<close>

fun builder :: "kind \<Rightarrow> string option \<Rightarrow> heap \<Rightarrow> ref outcome" where
  "builder Element = cssSelectorBuilder_element"
| "builder Id = cssSelectorBuilder_id"
| "builder Class = cssSelectorBuilder_class"
| "builder Attr = cssSelectorBuilder_attr"
| "builder PseudoClass = cssSelectorBuilder_pseudoClass"
| "builder PseudoElement = cssSelectorBuilder_pseudoElement"

subsection \<open>Chained calls\<close>

text \<open>
  \<open>and_then x f\<close> is the call \<open>f\<close> made on the selector that \<open>x\<close> returned, in the store
  that \<open>x\<close> left; a thrown error ends the chain. \<open>stringify_result\<close> is the final
  \<open>.stringify()\<close> of a chain. \<open>run_adds\<close> is a chain of fragment-adding calls
  \<open>this.k1(v1).k2(v2)...\<close>.
\<close>

definition and_then :: "ref outcome \<Rightarrow> (ref \<Rightarrow> heap \<Rightarrow> 'a outcome) \<Rightarrow> 'a outcome" where
  "and_then x f = (case x of (Inl e, h) \<Rightarrow> (Inl e, h) | (Inr r, h) \<Rightarrow> f r h)"

definition stringify_result :: "ref outcome \<Rightarrow> error + string option" where
  "stringify_result x = (case x of (Inl e, h) \<Rightarrow> Inl e | (Inr r, h) \<Rightarrow> Inr (stringify h r))"

fun run_adds :: "(kind \<times> string) list \<Rightarrow> ref \<Rightarrow> heap \<Rightarrow> ref outcome" where
  "run_adds [] this h = (Inr this, h)"
| "run_adds ((k, v) # fs) this h =
     (case invoke (add k v) this h of
        (Inl e, h1) \<Rightarrow> (Inl e, h1)
      | (Inr r, h1) \<Rightarrow> run_adds fs r h1)"

subsection \<open>The stores a program can reach\<close>

text \<open>
  One step of a program: a facade call, a fragment-adding call or a \<open>combine\<close> on
  selectors that exist. \<open>stringify\<close> leaves the store as it is.
\<close>

inductive api_step :: "heap \<Rightarrow> heap \<Rightarrow> bool" where
  facade: "api_step h (snd (builder k v h))"
| fragment: "this < length h \<Longrightarrow> api_step h (snd (invoke (add k v) this h))"
| facade_combine:
    "s1 < length h \<Longrightarrow> s2 < length h \<Longrightarrow> api_step h (snd (cssSelectorBuilder_combine s1 c s2 h))"
| method_combine:
    "this < length h \<Longrightarrow> s < length h \<Longrightarrow> api_step h (snd (combine c s this h))"

definition reachable :: "heap \<Rightarrow> bool" where
  "reachable h \<longleftrightarrow> api_step\<^sup>*\<^sup>* [] h"

text \<open>
  What holds of every selector of a reachable store: a combined selector was made from
  selectors that existed before it, and each flag says whether its kind is stored.
\<close>

definition node_inv :: "ref \<Rightarrow> CssSelector \<Rightarrow> bool" where
  "node_inv r obj \<longleftrightarrow>
     (case combined obj of
        None \<Rightarrow> True
      | Some c \<Rightarrow> selector1 c < r \<and> selector2 c < r) \<and>
     (hasElement obj \<longleftrightarrow> parts obj Element \<noteq> None) \<and>
     (hasId obj \<longleftrightarrow> parts obj Id \<noteq> None) \<and>
     (hasPseudoElement obj \<longleftrightarrow> parts obj PseudoElement \<noteq> None)"

definition heap_inv :: "heap \<Rightarrow> bool" where
  "heap_inv h \<longleftrightarrow> (\<forall>r < length h. node_inv r (h ! r))"

subsection \<open>The specification's notions\<close>

text \<open>
  The canonical rank of a kind, the decoration of a value, and the canonical text of a
  simple selector: over the six kinds in canonical order, every value of the kind,
  decorated, with no separator.
\<close>

fun rank :: "kind \<Rightarrow> nat" where
  "rank Element = 0"
| "rank Id = 1"
| "rank Class = 2"
| "rank Attr = 3"
| "rank PseudoClass = 4"
| "rank PseudoElement = 5"

fun decorate :: "kind \<Rightarrow> string \<Rightarrow> string" where
  "decorate Element v = v"
| "decorate Id v = ''#'' @ v"
| "decorate Class v = ''.'' @ v"
| "decorate Attr v = ''['' @ v @ '']''"
| "decorate PseudoClass v = '':'' @ v"
| "decorate PseudoElement v = ''::'' @ v"

definition canonical_text :: "(kind \<Rightarrow> string list) \<Rightarrow> string" where
  "canonical_text values_of =
     concat (map (\<lambda>k. concat (map (decorate k) (values_of k)))
       [Element, Id, Class, Attr, PseudoClass, PseudoElement])"

text \<open>
  A valid sequence of fragments: the ranks never decrease, and element, id and
  pseudo-element occur at most once each.
\<close>

definition valid_sequence :: "(kind \<times> string) list \<Rightarrow> bool" where
  "valid_sequence fs \<longleftrightarrow>
     sorted (map (\<lambda>f. rank (fst f)) fs) \<and>
     length (filter (\<lambda>f. fst f = Element) fs) \<le> 1 \<and>
     length (filter (\<lambda>f. fst f = Id) fs) \<le> 1 \<and>
     length (filter (\<lambda>f. fst f = PseudoElement) fs) \<le> 1"

text \<open>The values a selector stores for a kind, none when the kind has no array yet.\<close>

definition vals :: "CssSelector \<Rightarrow> kind \<Rightarrow> string list" where
  "vals this k = (case parts this k of None \<Rightarrow> [] | Some vs \<Rightarrow> vs)"

text \<open>Whether the flag of a kind that may occur once is set.\<close>

definition singleton_seen :: "kind \<Rightarrow> CssSelector \<Rightarrow> bool" where
  "singleton_seen k this =
     (case k of Element \<Rightarrow> hasElement this | Id \<Rightarrow> hasId this
      | PseudoElement \<Rightarrow> hasPseudoElement this | _ \<Rightarrow> False)"

subsection \<open>Example programs\<close>

text \<open>\<open>element('div').id('main')\<close>, run in the empty store.\<close>

definition div_main :: "ref outcome" where
  "div_main = and_then (cssSelectorBuilder_element (Some ''div'') []) (invoke (id_m ''main''))"

text \<open>\<open>element('table').id('data')\<close>, run after it: two selectors, at 0 and 1.\<close>

definition two_selectors :: heap where
  "two_selectors =
     snd (and_then (cssSelectorBuilder_element (Some ''table'') (snd div_main)) (invoke (id_m ''data'')))"

text \<open>
  \<open>combine(combine(s0, '+', s1), '>', element('p'))\<close> on these two: the inner combined
  selector is at 2, \<open>p\<close> at 3 and the outer combined selector at 4.
\<close>

definition nested :: "ref outcome" where
  "nested =
     and_then (cssSelectorBuilder_combine 0 ''+'' 1 two_selectors)
       (\<lambda>a h. and_then (cssSelectorBuilder_element (Some ''p'') h)
          (\<lambda>b. cssSelectorBuilder_combine a ''>'' b))"

text \<open>
  \<open>combine(element(), '>', element('p'))\<close>, run in the empty store: the selector made
  without a value is at 0, \<open>p\<close> at 1 and the combined selector at 2.
\<close>

definition unseeded :: "ref outcome" where
  "unseeded =
     and_then (cssSelectorBuilder_element None [])
       (\<lambda>a h. and_then (cssSelectorBuilder_element (Some ''p'') h)
          (\<lambda>b. cssSelectorBuilder_combine a ''>'' b))"


section \<open>Properties\<close>

subsection \<open>The order check\<close>

lemma indexOf_order_Some: "indexOf (map Some order) (Some k) = int (rank k)"
  by (cases k) (simp_all add: indexOf_def order_def)

lemma indexOf_order_None: "indexOf (map Some order) None = - 1"
  by (simp add: indexOf_def order_def)

lemma validateOrder_eq:
  "validateOrder k this =
     (if (\<exists>l. lastAdded this = Some l \<and> rank k < rank l) then Inl OrderViolationError else Inr ())"
  by (cases "lastAdded this") (auto simp add: validateOrder_def indexOf_order_Some indexOf_order_None)

subsection \<open>The fragment-adding methods\<close>

lemma addPart_parts:
  "parts (addPart k v this) = (parts this)(k \<mapsto> vals this k @ [v])"
  by (auto simp add: addPart_def vals_def Let_def split: option.splits)

lemma addPart_fields:
  "hasElement (addPart k v this) = hasElement this"
  "hasId (addPart k v this) = hasId this"
  "hasPseudoElement (addPart k v this) = hasPseudoElement this"
  "lastAdded (addPart k v this) = lastAdded this"
  "combined (addPart k v this) = combined this"
  by (auto simp add: addPart_def Let_def split: option.splits)

lemmas add_defs = element_def id_m_def class_m_def attr_def pseudoClass_def pseudoElement_def

lemma add_fail: "add k v this = (Inl e, this') \<Longrightarrow> this' = this"
  by (cases k) (auto simp add: add_defs Let_def split: sum.splits if_splits)

lemma add_outcome:
  "fst (add k v this) =
     (if (\<exists>l. lastAdded this = Some l \<and> rank k < rank l) then Inl OrderViolationError
      else if singleton_seen k this then Inl DuplicateFragmentError
      else Inr ())"
  by (cases k) (simp_all add: add_defs validateOrder_eq singleton_seen_def Let_def)

lemma add_success_parts:
  "add k v this = (Inr u, this') \<Longrightarrow> parts this' = (parts this)(k \<mapsto> vals this k @ [v])"
  by (cases k) (auto simp add: add_defs Let_def addPart_parts split: sum.splits if_splits)

lemma add_success_fields:
  assumes "add k v this = (Inr u, this')"
  shows "lastAdded this' = Some k" and "combined this' = combined this"
    and "hasElement this' \<longleftrightarrow> hasElement this \<or> k = Element"
    and "hasId this' \<longleftrightarrow> hasId this \<or> k = Id"
    and "hasPseudoElement this' \<longleftrightarrow> hasPseudoElement this \<or> k = PseudoElement"
  using assms
  by (cases k; auto simp add: add_defs Let_def addPart_fields split: sum.splits if_splits)+

lemma add_success_vals:
  "add k v this = (Inr u, this') \<Longrightarrow> vals this' k' = vals this k' @ (if k' = k then [v] else [])"
  by (simp add: vals_def [of this'] add_success_parts) (simp add: vals_def)

lemma foldl_append_map:
  "foldl (\<lambda>result v. result @ f v) acc vs = acc @ concat (map f vs)"
  by (induction vs arbitrary: acc) simp_all

lemma decorate_prefix_suffix: "prefix_of k @ v @ suffix_of k = decorate k v"
  by (cases k) simp_all

lemma stringify_kind_step:
  "(case parts this k of
      None \<Rightarrow> result
    | Some vs \<Rightarrow> foldl (\<lambda>result v. result @ prefix_of k @ v @ suffix_of k) result vs)
   = result @ concat (map (decorate k) (vals this k))"
  by (simp add: vals_def foldl_append_map decorate_prefix_suffix split: option.split)

lemma stringify_parts_canonical: "stringify_parts this = canonical_text (vals this)"
  by (simp add: stringify_parts_def outputOrder_def canonical_text_def stringify_kind_step)

lemma stringify_simple:
  "combined (h ! this) = None \<Longrightarrow> stringify h this = Some (stringify_parts (h ! this))"
  by (subst stringify.simps) simp

lemma stringify_combined:
  "combined (h ! this) = Some c \<Longrightarrow>
   stringify h this =
     Option.bind (stringify h (selector1 c)) (\<lambda>a.
     Option.bind (stringify h (selector2 c)) (\<lambda>b.
       Some (a @ '' '' @ combinator c @ '' '' @ b)))"
  by (subst stringify.simps) simp

subsection \<open>Calls on the store\<close>

lemma invoke_fst: "fst (invoke m this h) = map_sum (\<lambda>e. e) (\<lambda>_. this) (fst (m (h ! this)))"
  by (simp add: invoke_def split: prod.split sum.split)

lemma invoke_snd: "snd (invoke m this h) = h[this := snd (m (h ! this))]"
  by (simp add: invoke_def split: prod.split sum.split)

lemma invoke_add_fail:
  assumes "fst (invoke (add k v) this h) = Inl e"
  shows "snd (invoke (add k v) this h) = h"
proof -
  obtain res obj where m: "add k v (h ! this) = (res, obj)" by (cases "add k v (h ! this)")
  with assms have "res = Inl e" by (cases res) (simp_all add: invoke_def)
  with m have "obj = h ! this" by (simp add: add_fail)
  with m show ?thesis by (simp add: invoke_snd)
qed

lemma invoke_add_Inr:
  assumes "invoke (add k v) this h = (Inr r, h')"
  shows "r = this" and "h' = h[this := snd (add k v (h ! this))]"
    and "\<exists>u. add k v (h ! this) = (Inr u, snd (add k v (h ! this)))"
  using assms by (auto simp add: invoke_def split: prod.splits sum.splits)

lemma run_adds_success:
  assumes "run_adds fs this h = (Inr r, h')" and "this < length h"
  shows "r = this \<and> length h' = length h
       \<and> (\<forall>k. vals (h' ! this) k = vals (h ! this) k @ map snd (filter (\<lambda>f. fst f = k) fs))
       \<and> combined (h' ! this) = combined (h ! this)
       \<and> (\<forall>r'. r' \<noteq> this \<longrightarrow> h' ! r' = h ! r')"
  using assms
proof (induction fs arbitrary: h)
  case Nil
  then show ?case by simp
next
  case (Cons f fs)
  obtain k v where f: "f = (k, v)" by (cases f)
  from Cons.prems(1) f obtain r1 h1 where
    step: "invoke (add k v) this h = (Inr r1, h1)" and rest: "run_adds fs r1 h1 = (Inr r, h')"
    by (auto split: prod.splits sum.splits)
  from invoke_add_Inr [OF step] obtain u where
    r1: "r1 = this" and h1: "h1 = h[this := snd (add k v (h ! this))]"
    and ok: "add k v (h ! this) = (Inr u, snd (add k v (h ! this)))" by blast
  from h1 Cons.prems(2) have len: "this < length h1" and at: "h1 ! this = snd (add k v (h ! this))"
    by simp_all
  from Cons.IH [OF rest [unfolded r1] len] have
    IH: "r = this" "length h' = length h1"
      "\<And>k'. vals (h' ! this) k' = vals (h1 ! this) k' @ map snd (filter (\<lambda>f. fst f = k') fs)"
      "combined (h' ! this) = combined (h1 ! this)"
      "\<And>r'. r' \<noteq> this \<Longrightarrow> h' ! r' = h1 ! r'"
    by auto
  have v1: "\<And>k'. vals (h1 ! this) k' = vals (h ! this) k' @ (if k' = k then [v] else [])"
    using add_success_vals [OF ok] at by simp
  have c1: "combined (h1 ! this) = combined (h ! this)"
    using add_success_fields(2) [OF ok] at by simp
  show ?case
    using IH v1 c1 h1 f by auto
qed

lemma heap_inv_refs:
  "heap_inv h \<Longrightarrow> r < length h \<Longrightarrow> combined (h ! r) = Some c \<Longrightarrow> selector1 c < r \<and> selector2 c < r"
  by (auto simp add: heap_inv_def node_inv_def)

lemma stringify_agree:
  assumes "heap_inv h"
  shows "r < length h \<Longrightarrow> (\<forall>i \<le> r. h' ! i = h ! i) \<Longrightarrow> stringify h' r = stringify h r"
proof (induction r rule: less_induct)
  case (less r)
  show ?case
  proof (cases "combined (h ! r)")
    case None
    with less.prems show ?thesis by (simp add: stringify_simple)
  next
    case (Some c)
    from heap_inv_refs [OF assms less.prems(1) Some]
    have lt: "selector1 c < r" "selector2 c < r" by simp_all
    from less.prems(2) have here: "h' ! r = h ! r" by simp
    have "stringify h' (selector1 c) = stringify h (selector1 c)"
      using less.IH [OF lt(1)] less.prems lt by simp
    moreover have "stringify h' (selector2 c) = stringify h (selector2 c)"
      using less.IH [OF lt(2)] less.prems lt by simp
    ultimately show ?thesis
      using Some here by (simp add: stringify_combined)
  qed
qed

lemma stringify_append:
  "heap_inv h \<Longrightarrow> r < length h \<Longrightarrow> stringify (h @ ext) r = stringify h r"
  by (rule stringify_agree) (simp_all add: nth_append)

lemma stringify_returns:
  assumes "heap_inv h"
  shows "r < length h \<Longrightarrow> \<exists>s. stringify h r = Some s"
proof (induction r rule: less_induct)
  case (less r)
  show ?case
  proof (cases "combined (h ! r)")
    case None
    then show ?thesis by (simp add: stringify_simple)
  next
    case (Some c)
    from heap_inv_refs [OF assms less.prems Some]
    have lt: "selector1 c < r" "selector2 c < r" by simp_all
    from less.IH [OF lt(1)] less.prems lt obtain a where "stringify h (selector1 c) = Some a" by auto
    moreover from less.IH [OF lt(2)] less.prems lt obtain b where "stringify h (selector2 c) = Some b" by auto
    ultimately show ?thesis using Some by (simp add: stringify_combined)
  qed
qed

subsection \<open>The invariant of reachable stores\<close>

lemma constructor_null: 
  "constructor None None = \<lparr>parts = Map.empty, hasElement = False, hasId = False,
      hasPseudoElement = False, lastAdded = None, combined = None\<rparr>"
  by (simp add: constructor_def)

lemma constructor_seeded:
  "parts (constructor (Some v) (Some k)) = [k \<mapsto> [v]]"
  "lastAdded (constructor (Some v) (Some k)) = Some k"
  "combined (constructor (Some v) (Some k)) = None"
  "hasElement (constructor (Some v) (Some k)) \<longleftrightarrow> k = Element"
  "hasId (constructor (Some v) (Some k)) \<longleftrightarrow> k = Id"
  "hasPseudoElement (constructor (Some v) (Some k)) \<longleftrightarrow> k = PseudoElement"
  by (auto simp add: constructor_def Let_def addPart_parts addPart_fields vals_def)

lemma constructor_unseeded:
  "constructor None (Some k) = \<lparr>parts = Map.empty, hasElement = False, hasId = False,
      hasPseudoElement = False, lastAdded = None, combined = None\<rparr>"
  by (simp add: constructor_def)

lemma builder_eq: "builder k v h = (Inr (length h), h @ [constructor v (Some k)])"
  by (cases k)
    (simp_all add: new_CssSelector_def cssSelectorBuilder_element_def cssSelectorBuilder_id_def
      cssSelectorBuilder_class_def cssSelectorBuilder_attr_def cssSelectorBuilder_pseudoClass_def
      cssSelectorBuilder_pseudoElement_def)

lemma cssSelectorBuilder_combine_eq:
  "cssSelectorBuilder_combine s1 c s2 h =
     (Inr (length h), h @ [(constructor None None)\<lparr>combined :=
        Some \<lparr>selector1 = s1, combinator = c, selector2 = s2\<rparr>\<rparr>])"
  by (simp add: cssSelectorBuilder_combine_def new_CssSelector_def)

lemma combine_eq:
  "combine c s this h =
     (Inr (length h), h @ [(constructor None None)\<lparr>combined :=
        Some \<lparr>selector1 = this, combinator = c, selector2 = s\<rparr>\<rparr>])"
  by (simp add: combine_def new_CssSelector_def)

lemma node_inv_seeded: "node_inv r (constructor v (Some k))"
  by (cases v; cases k) (simp_all add: node_inv_def constructor_seeded constructor_unseeded)

lemma node_inv_combined:
  "s1 < r \<Longrightarrow> s2 < r \<Longrightarrow>
   node_inv r ((constructor None None)\<lparr>combined := Some \<lparr>selector1 = s1, combinator = c, selector2 = s2\<rparr>\<rparr>)"
  by (simp add: node_inv_def constructor_null)

lemma node_inv_add:
  assumes "node_inv r this" and "add k v this = (Inr u, this')"
  shows "node_inv r this'"
  using assms(1) add_success_parts [OF assms(2)] add_success_fields [OF assms(2)]
  by (cases k) (auto simp add: node_inv_def split: option.splits)

lemma heap_inv_snoc: "heap_inv h \<Longrightarrow> node_inv (length h) obj \<Longrightarrow> heap_inv (h @ [obj])"
  by (auto simp add: heap_inv_def nth_append less_Suc_eq)

lemma heap_inv_update:
  "heap_inv h \<Longrightarrow> node_inv r obj \<Longrightarrow> heap_inv (h[r := obj])"
  unfolding heap_inv_def
proof (intro allI impI)
  fix i
  assume inv: "\<forall>r<length h. node_inv r (h ! r)" and obj: "node_inv r obj"
    and i: "i < length (h[r := obj])"
  show "node_inv i (h[r := obj] ! i)"
    using inv obj i by (cases "i = r") simp_all
qed

lemma heap_inv_builder: "heap_inv h \<Longrightarrow> heap_inv (snd (builder k v h))"
  by (simp add: builder_eq heap_inv_snoc node_inv_seeded)

lemma heap_inv_invoke_add:
  assumes "heap_inv h" and "this < length h"
  shows "heap_inv (snd (invoke (add k v) this h))"
proof (cases "fst (invoke (add k v) this h)")
  case (Inl e)
  then show ?thesis using assms(1) by (simp add: invoke_add_fail)
next
  case (Inr r)
  then have "invoke (add k v) this h = (Inr r, snd (invoke (add k v) this h))"
    by (metis prod.collapse)
  from invoke_add_Inr [OF this] obtain u where
    h': "snd (invoke (add k v) this h) = h[this := snd (add k v (h ! this))]"
    and ok: "add k v (h ! this) = (Inr u, snd (add k v (h ! this)))" by blast
  from assms have "node_inv this (h ! this)" by (simp add: heap_inv_def)
  from node_inv_add [OF this ok] assms(1) show ?thesis
    unfolding h' by (rule heap_inv_update [rotated])
qed

lemma heap_inv_cssSelectorBuilder_combine:
  "heap_inv h \<Longrightarrow> s1 < length h \<Longrightarrow> s2 < length h \<Longrightarrow>
   heap_inv (snd (cssSelectorBuilder_combine s1 c s2 h))"
  by (simp add: cssSelectorBuilder_combine_eq heap_inv_snoc node_inv_combined)

lemma heap_inv_combine:
  "heap_inv h \<Longrightarrow> this < length h \<Longrightarrow> s < length h \<Longrightarrow> heap_inv (snd (combine c s this h))"
  by (simp add: combine_eq heap_inv_snoc node_inv_combined)

lemma api_step_heap_inv: "api_step h h' \<Longrightarrow> heap_inv h \<Longrightarrow> heap_inv h'"
  by (induction rule: api_step.induct)
    (simp_all add: heap_inv_builder heap_inv_invoke_add heap_inv_cssSelectorBuilder_combine
      heap_inv_combine)

lemma api_steps_heap_inv: "api_step\<^sup>*\<^sup>* h h' \<Longrightarrow> heap_inv h \<Longrightarrow> heap_inv h'"
  by (induction rule: rtranclp_induct) (auto intro: api_step_heap_inv)

lemma reachable_heap_inv: "reachable h \<Longrightarrow> heap_inv h"
  unfolding reachable_def by (erule api_steps_heap_inv) (simp add: heap_inv_def)

lemma api_step_length: "api_step h h' \<Longrightarrow> length h \<le> length h'"
  by (induction rule: api_step.induct)
    (simp_all add: builder_eq invoke_snd cssSelectorBuilder_combine_eq combine_eq)

lemma api_steps_length: "api_step\<^sup>*\<^sup>* h h' \<Longrightarrow> length h \<le> length h'"
  by (induction rule: rtranclp_induct) (auto dest: api_step_length)

lemmas builder_defs = new_CssSelector_def cssSelectorBuilder_element_def cssSelectorBuilder_id_def
      cssSelectorBuilder_class_def cssSelectorBuilder_attr_def cssSelectorBuilder_pseudoClass_def
      cssSelectorBuilder_pseudoElement_def

lemmas run_defs = and_then_def invoke_def builder_defs add_defs constructor_def addPart_def
  validateOrder_def indexOf_def order_def Let_def

lemma div_main_eq: "div_main = (Inr 0, [\<lparr>parts = [Element \<mapsto> [''div''], Id \<mapsto> [''main'']], hasElement = True, hasId = True,
    hasPseudoElement = False, lastAdded = Some Id, combined = None\<rparr>])"
  by (simp add: div_main_def run_defs)

lemma node_inv_seen:
  "node_inv r this \<Longrightarrow> k \<in> {Element, Id, PseudoElement} \<Longrightarrow>
   singleton_seen k this \<longleftrightarrow> parts this k \<noteq> None"
  by (auto simp add: node_inv_def singleton_seen_def)

subsection \<open>Combining, repeating and growing\<close>

lemma combine_stringify_any:
  assumes "heap_inv h" and "a < length h" and "b < length h"
  shows "\<exists>c h' sa sb.
           cssSelectorBuilder_combine a t b h = (Inr c, h') \<and>
           stringify h a = Some sa \<and> stringify h b = Some sb \<and>
           stringify h' a = Some sa \<and> stringify h' b = Some sb \<and>
           stringify h' c = Some (sa @ '' '' @ t @ '' '' @ sb)"
proof -
  let ?obj = "(constructor None None)\<lparr>combined :=
                Some \<lparr>selector1 = a, combinator = t, selector2 = b\<rparr>\<rparr>"
  let ?h' = "h @ [?obj]"
  from stringify_returns [OF assms(1,2)] obtain sa where sa: "stringify h a = Some sa" ..
  from stringify_returns [OF assms(1,3)] obtain sb where sb: "stringify h b = Some sb" ..
  have sa': "stringify ?h' a = Some sa" using sa assms by (simp add: stringify_append)
  have sb': "stringify ?h' b = Some sb" using sb assms by (simp add: stringify_append)
  have "combined (?h' ! length h) = Some \<lparr>selector1 = a, combinator = t, selector2 = b\<rparr>"
    by simp
  from stringify_combined [OF this] sa' sb'
  have "stringify ?h' (length h) = Some (sa @ '' '' @ t @ '' '' @ sb)" by simp
  with sa sb sa' sb' show ?thesis
    by (simp add: cssSelectorBuilder_combine_eq)
qed

lemma run_same_kind_succeeds:
  assumes "k \<in> {Class, Attr, PseudoClass}"
  shows "this < length h \<Longrightarrow> (\<forall>l. lastAdded (h ! this) = Some l \<longrightarrow> rank l \<le> rank k) \<Longrightarrow>
         \<exists>h'. run_adds (map (Pair k) vs) this h = (Inr this, h')"
proof (induction vs arbitrary: h)
  case Nil
  then show ?case by simp
next
  case (Cons v vs)
  from assms have unseen: "\<not> singleton_seen k (h ! this)"
    by (auto simp add: singleton_seen_def)
  from Cons.prems(2) have "\<not> (\<exists>l. lastAdded (h ! this) = Some l \<and> rank k < rank l)"
    by (auto simp add: not_less)
  with unseen have ok: "fst (add k v (h ! this)) = Inr ()" by (simp add: add_outcome)
  then have ok': "add k v (h ! this) = (Inr (), snd (add k v (h ! this)))"
    by (metis prod.collapse)
  let ?h1 = "h[this := snd (add k v (h ! this))]"
  have step: "invoke (add k v) this h = (Inr this, ?h1)"
    using ok by (cases "add k v (h ! this)") (simp add: invoke_def)
  from Cons.prems(1) have len: "this < length ?h1" by simp
  from Cons.prems(1) add_success_fields(1) [OF ok']
  have "lastAdded (?h1 ! this) = Some k" by simp
  then have "\<forall>l. lastAdded (?h1 ! this) = Some l \<longrightarrow> rank l \<le> rank k" by simp
  from Cons.IH [OF len this] step show ?case by simp
qed

lemma filter_same_kind:
  "map snd (filter (\<lambda>f. fst f = k') (map (Pair k) vs)) = (if k' = k then vs else [])"
  by (induction vs) auto

lemma canonical_text_extend:
  "\<exists>pre post. canonical_text V = pre @ post \<and>
     canonical_text (\<lambda>k'. V k' @ (if k' = k then vs else []))
       = pre @ concat (map (decorate k) vs) @ post"
proof -
  let ?part = "\<lambda>k'. concat (map (decorate k') (V k'))"
  let ?order = "[Element, Id, Class, Attr, PseudoClass, PseudoElement]"
  let ?pre = "concat (map ?part (filter (\<lambda>k'. rank k' \<le> rank k) ?order))"
  let ?post = "concat (map ?part (filter (\<lambda>k'. rank k < rank k') ?order))"
  have "canonical_text V = ?pre @ ?post \<and>
     canonical_text (\<lambda>k'. V k' @ (if k' = k then vs else []))
       = ?pre @ concat (map (decorate k) vs) @ ?post"
    by (cases k) (simp_all add: canonical_text_def)
  then show ?thesis by blast
qed

lemma stringify_grows:
  assumes "heap_inv h" and "x < length h" and "combined (h ! x) = None" and "combined obj = None"
    and "length (stringify_parts (h ! x)) \<le> length (stringify_parts obj)"
  shows "r < length h \<Longrightarrow>
         \<exists>s s'. stringify h r = Some s \<and> stringify (h[x := obj]) r = Some s' \<and> length s \<le> length s'"
proof (induction r rule: less_induct)
  case (less r)
  show ?case
  proof (cases "r = x")
    case True
    with assms show ?thesis by (simp add: stringify_simple)
  next
    case False
    then have here: "h[x := obj] ! r = h ! r" by simp
    show ?thesis
    proof (cases "combined (h ! r)")
      case None
      with here show ?thesis by (simp add: stringify_simple)
    next
      case (Some c)
      from heap_inv_refs [OF assms(1) less.prems Some]
      have lt: "selector1 c < r" "selector2 c < r" by simp_all
      from less.IH [OF lt(1)] less.prems lt obtain a a' where
        a: "stringify h (selector1 c) = Some a" "stringify (h[x := obj]) (selector1 c) = Some a'"
           "length a \<le> length a'" by auto
      from less.IH [OF lt(2)] less.prems lt obtain b b' where
        b: "stringify h (selector2 c) = Some b" "stringify (h[x := obj]) (selector2 c) = Some b'"
           "length b \<le> length b'" by auto
      from Some here have "combined (h[x := obj] ! r) = Some c" by simp
      from stringify_combined [OF this] stringify_combined [OF Some] a b
      show ?thesis by simp
    qed
  qed
qed

lemma canonical_text_length_add:
  "length (canonical_text (\<lambda>k'. V k' @ (if k' = k then [v] else [])))
     = length (canonical_text V) + length (decorate k v)"
  by (cases k) (simp_all add: canonical_text_def)

lemma filter_at_most_one_head:
  "length (filter (\<lambda>f. fst f = k) ((k, v) # fs)) \<le> 1 \<Longrightarrow> k \<notin> fst ` set fs"
  by (auto simp add: filter_empty_conv)

lemma run_adds_valid:
  "this < length h \<Longrightarrow> valid_sequence fs \<Longrightarrow>
   (\<forall>l. lastAdded (h ! this) = Some l \<longrightarrow> (\<forall>f \<in> set fs. rank l \<le> rank (fst f))) \<Longrightarrow>
   (\<forall>k. singleton_seen k (h ! this) \<longrightarrow> k \<notin> fst ` set fs) \<Longrightarrow>
   \<exists>h'. run_adds fs this h = (Inr this, h')"
proof (induction fs arbitrary: h)
  case Nil
  then show ?case by simp
next
  case (Cons f fs)
  obtain k v where f: "f = (k, v)" by (cases f)
  from Cons.prems(3) f have "\<not> (\<exists>l. lastAdded (h ! this) = Some l \<and> rank k < rank l)"
    by (auto simp add: not_less)
  moreover from Cons.prems(4) f have unseen: "\<not> singleton_seen k (h ! this)" by auto
  ultimately have ok: "fst (add k v (h ! this)) = Inr ()" by (simp add: add_outcome)
  then have ok': "add k v (h ! this) = (Inr (), snd (add k v (h ! this)))"
    by (metis prod.collapse)
  let ?obj = "snd (add k v (h ! this))"
  let ?h1 = "h[this := ?obj]"
  have step: "invoke (add k v) this h = (Inr this, ?h1)"
    using ok by (cases "add k v (h ! this)") (simp add: invoke_def)
  from Cons.prems(1) have len: "this < length ?h1" and at: "?h1 ! this = ?obj" by simp_all
  from Cons.prems(2) f have valid: "valid_sequence fs"
    and above: "\<forall>g \<in> set fs. rank k \<le> rank (fst g)"
    by (auto simp add: valid_sequence_def split: if_splits)
  have once: "k \<notin> fst ` set fs" if "k \<in> {Element, Id, PseudoElement}"
  proof -
    from that Cons.prems(2) f have "length (filter (\<lambda>f. fst f = k) ((k, v) # fs)) \<le> 1"
      unfolding valid_sequence_def by blast
    then show ?thesis by (rule filter_at_most_one_head)
  qed
  have last: "\<forall>l. lastAdded (?h1 ! this) = Some l \<longrightarrow> (\<forall>g \<in> set fs. rank l \<le> rank (fst g))"
    using add_success_fields(1) [OF ok'] above at by simp
  have seen: "\<forall>k'. singleton_seen k' (?h1 ! this) \<longrightarrow> k' \<notin> fst ` set fs"
  proof (intro allI impI)
    fix k'
    assume s: "singleton_seen k' (?h1 ! this)"
    show "k' \<notin> fst ` set fs"
    proof (cases "singleton_seen k' (h ! this)")
      case True
      with Cons.prems(4) show ?thesis by auto
    next
      case False
      with s add_success_fields(3,4,5) [OF ok'] at have "k' = k" and "k \<in> {Element, Id, PseudoElement}"
        by (cases k'; simp add: singleton_seen_def)+
      then show ?thesis using once by simp
    qed
  qed
  from Cons.IH [OF len valid last seen] step f show ?case by simp
qed

subsection \<open>The example programs, evaluated\<close>

lemma two_selectors_eq:
  "two_selectors =
     [\<lparr>parts = [Element \<mapsto> [''div''], Id \<mapsto> [''main'']], hasElement = True, hasId = True,
        hasPseudoElement = False, lastAdded = Some Id, combined = None\<rparr>,
      \<lparr>parts = [Element \<mapsto> [''table''], Id \<mapsto> [''data'']], hasElement = True, hasId = True,
        hasPseudoElement = False, lastAdded = Some Id, combined = None\<rparr>]"
  by (simp add: two_selectors_def div_main_eq run_defs)

lemma nested_eq:
  "nested = (Inr 4, two_selectors @
     [\<lparr>parts = Map.empty, hasElement = False, hasId = False, hasPseudoElement = False,
        lastAdded = None,
        combined = Some \<lparr>selector1 = 0, combinator = ''+'', selector2 = 1\<rparr>\<rparr>,
      \<lparr>parts = [Element \<mapsto> [''p'']], hasElement = True, hasId = False,
        hasPseudoElement = False, lastAdded = Some Element, combined = None\<rparr>,
      \<lparr>parts = Map.empty, hasElement = False, hasId = False, hasPseudoElement = False,
        lastAdded = None,
        combined = Some \<lparr>selector1 = 2, combinator = ''>'', selector2 = 3\<rparr>\<rparr>])"
  by (simp add: nested_def two_selectors_eq run_defs cssSelectorBuilder_combine_def)

lemma unseeded_eq:
  "unseeded = (Inr 2,
     [\<lparr>parts = Map.empty, hasElement = False, hasId = False, hasPseudoElement = False,
        lastAdded = None, combined = None\<rparr>,
      \<lparr>parts = [Element \<mapsto> [''p'']], hasElement = True, hasId = False,
        hasPseudoElement = False, lastAdded = Some Element, combined = None\<rparr>,
      \<lparr>parts = Map.empty, hasElement = False, hasId = False, hasPseudoElement = False,
        lastAdded = None,
        combined = Some \<lparr>selector1 = 0, combinator = ''>'', selector2 = 1\<rparr>\<rparr>])"
  by (simp add: unseeded_def run_defs cssSelectorBuilder_combine_def)

lemma heap_inv_two_selectors: "heap_inv two_selectors"
  by (simp add: two_selectors_eq heap_inv_def node_inv_def less_Suc_eq)

lemma heap_inv_nested: "heap_inv (snd nested)"
  by (simp add: nested_eq two_selectors_eq heap_inv_def node_inv_def less_Suc_eq
      numeral_2_eq_2 numeral_3_eq_3 eval_nat_numeral)

lemmas stringify_eval = stringify.simps stringify_parts_def outputOrder_def

lemma stringify_nested:
  "stringify (snd nested) 2 = Some ''div#main + table#data''"
  "stringify (snd nested) 3 = Some ''p''"
  "stringify (snd nested) 4 = Some ''div#main + table#data > p''"
  by (simp_all add: nested_eq two_selectors_eq stringify_eval)

subsection \<open>Claims\<close>

text \<open>
  Where a theorem below needs the store to be well formed it assumes \<open>heap_inv\<close>, which
  by \<open>reachable_heap_inv\<close> holds of every store a program can reach.
\<close>

text \<open>
  C1, as stated: a second \<open>element\<close>, \<open>id\<close> or \<open>pseudoElement\<close> call on a selector that
  holds that kind fails with \<open>DuplicateFragmentError\<close>, whatever was added in between.
  It fails on the code: after \<open>element('div').id('main')\<close> the call \<open>.element('span')\<close>
  throws the order error, since \<open>validateOrder\<close> runs before the test of the flag.
\<close>

theorem second_singleton_counterexample:
  "fst div_main = Inr 0 \<and> parts (snd div_main ! 0) Element = Some [''div''] \<and>
   fst (invoke (element ''span'') 0 (snd div_main)) = Inl OrderViolationError"
  by (simp add: div_main_eq run_defs)


text \<open>
  C1, amended: a second \<open>element\<close>, \<open>id\<close> or \<open>pseudoElement\<close> call on a selector that
  holds that kind always fails; the error is \<open>OrderViolationError\<close> when the kind added
  last ranks above the new one and \<open>DuplicateFragmentError\<close> otherwise, which is the case
  whenever the kind added last is that same kind, and always for \<open>pseudoElement\<close>.
\<close>

theorem second_singleton_fails:
  assumes "heap_inv h" and "this < length h" and "k \<in> {Element, Id, PseudoElement}"
    and "parts (h ! this) k \<noteq> None"
  shows "fst (invoke (add k v) this h) =
           Inl (if \<exists>l. lastAdded (h ! this) = Some l \<and> rank k < rank l
                then OrderViolationError else DuplicateFragmentError) \<and>
         (lastAdded (h ! this) = Some k \<or> k = PseudoElement \<longrightarrow>
            fst (invoke (add k v) this h) = Inl DuplicateFragmentError)"
proof -
  from assms(1,2) have "node_inv this (h ! this)" by (simp add: heap_inv_def)
  from node_inv_seen [OF this assms(3)] assms(4) have seen: "singleton_seen k (h ! this)" by simp
  then have main: "fst (invoke (add k v) this h) =
           Inl (if \<exists>l. lastAdded (h ! this) = Some l \<and> rank k < rank l
                then OrderViolationError else DuplicateFragmentError)"
    by (simp add: invoke_fst add_outcome)
  have top: "rank l \<le> rank PseudoElement" for l by (cases l) simp_all
  have "fst (invoke (add k v) this h) = Inl DuplicateFragmentError"
    if "lastAdded (h ! this) = Some k \<or> k = PseudoElement"
  proof -
    from that top have "\<not> (\<exists>l. lastAdded (h ! this) = Some l \<and> rank k < rank l)"
      by (auto simp add: not_less)
    with main show ?thesis by simp
  qed
  with main show ?thesis by blast
qed

theorem second_singleton_fails_witness:
  "heap_inv (snd div_main) \<and> (0::nat) < length (snd div_main) \<and>
   parts (snd div_main ! 0) Id \<noteq> None \<and>
   fst (invoke (add Id ''other'') 0 (snd div_main)) = Inl DuplicateFragmentError"
proof -
  have inv: "heap_inv (snd div_main)"
    by (simp add: div_main_eq heap_inv_def node_inv_def)
  have len: "(0::nat) < length (snd div_main)" by (simp add: div_main_eq)
  have holds: "parts (snd div_main ! 0) Id \<noteq> None" by (simp add: div_main_eq)
  have last: "lastAdded (snd div_main ! 0) = Some Id" by (simp add: div_main_eq)
  from second_singleton_fails [OF inv len _ holds, of "''other''"] last inv len holds
  show ?thesis by simp
qed

text \<open>
  C2: a fragment-adding call fails with \<open>OrderViolationError\<close> exactly when the rank
  of the new kind is strictly below the rank of the kind added last; the first addition
  to a selector never fails the order check, and neither does a call of equal rank.
\<close>

theorem order_check_exact:
  "(fst (invoke (add k v) this h) = Inl OrderViolationError
      \<longleftrightarrow> (\<exists>l. lastAdded (h ! this) = Some l \<and> rank k < rank l)) \<and>
   (lastAdded (h ! this) = None \<longrightarrow> fst (invoke (add k v) this h) \<noteq> Inl OrderViolationError) \<and>
   (\<forall>l. lastAdded (h ! this) = Some l \<and> rank l = rank k \<longrightarrow>
        fst (invoke (add k v) this h) \<noteq> Inl OrderViolationError)"
  by (auto simp add: invoke_fst add_outcome)

theorem order_check_exact_witness:
  "fst (invoke (add Element ''span'') 0 (snd div_main)) = Inl OrderViolationError \<and>
   lastAdded (snd div_main ! 0) = Some Id \<and> rank Element < rank Id \<and>
   fst (invoke (add Class ''c'') 0 (snd div_main)) \<noteq> Inl OrderViolationError \<and>
   fst (invoke (add Id ''again'') 0 (snd div_main)) \<noteq> Inl OrderViolationError"
  using order_check_exact [of Element "''span''" 0 "snd div_main"]
    order_check_exact [of Class "''c''" 0 "snd div_main"]
    order_check_exact [of Id "''again''" 0 "snd div_main"]
  by (simp add: div_main_eq)

text \<open>
  C3: a valid sequence of fragments is accepted, the first by the facade and the others
  by the fragment-adding calls chained on its result, and the selector built stringifies
  to the canonical text of the sequence: over the six kinds in the order element, id,
  class, attr, pseudoClass, pseudoElement, the values of the kind in the order they were
  added, each decorated, with no separator.
\<close>

theorem stringify_built:
  assumes "valid_sequence ((k, v) # fs)"
  shows "\<exists>r h1 h2. builder k (Some v) h = (Inr r, h1) \<and> run_adds fs r h1 = (Inr r, h2) \<and>
           stringify h2 r =
             Some (canonical_text (\<lambda>k'. map snd (filter (\<lambda>f. fst f = k') ((k, v) # fs))))"
proof -
  let ?r = "length h"
  let ?h1 = "h @ [constructor (Some v) (Some k)]"
  have b: "builder k (Some v) h = (Inr ?r, ?h1)" by (simp add: builder_eq)
  have len: "?r < length ?h1" and at: "?h1 ! ?r = constructor (Some v) (Some k)" by simp_all
  from assms have valid: "valid_sequence fs"
    and above: "\<forall>g \<in> set fs. rank k \<le> rank (fst g)"
    by (auto simp add: valid_sequence_def split: if_splits)
  have once: "k \<notin> fst ` set fs" if "k \<in> {Element, Id, PseudoElement}"
  proof -
    from that assms have "length (filter (\<lambda>f. fst f = k) ((k, v) # fs)) \<le> 1"
      unfolding valid_sequence_def by blast
    then show ?thesis by (rule filter_at_most_one_head)
  qed
  have last: "\<forall>l. lastAdded (?h1 ! ?r) = Some l \<longrightarrow> (\<forall>g \<in> set fs. rank l \<le> rank (fst g))"
    using above by (simp add: constructor_seeded)
  have seen: "\<forall>k'. singleton_seen k' (?h1 ! ?r) \<longrightarrow> k' \<notin> fst ` set fs"
  proof (intro allI impI)
    fix k'
    assume "singleton_seen k' (?h1 ! ?r)"
    then have "k' = k" and "k \<in> {Element, Id, PseudoElement}"
      by (cases k'; simp add: singleton_seen_def constructor_seeded)+
    then show "k' \<notin> fst ` set fs" using once by simp
  qed
  from run_adds_valid [OF len valid last seen] obtain h2 where
    run: "run_adds fs ?r ?h1 = (Inr ?r, h2)" by blast
  from run_adds_success [OF run len] have
    vs: "\<And>k'. vals (h2 ! ?r) k' = vals (?h1 ! ?r) k' @ map snd (filter (\<lambda>f. fst f = k') fs)" and
    simple: "combined (h2 ! ?r) = combined (?h1 ! ?r)"
    by auto
  have seed: "vals (constructor (Some v) (Some k)) k' = map snd (filter (\<lambda>f. fst f = k') [(k, v)])"
    for k'
    by (simp add: vals_def constructor_seeded)
  have "vals (h2 ! ?r) = (\<lambda>k'. map snd (filter (\<lambda>f. fst f = k') ((k, v) # fs)))"
    by (rule ext) (simp add: vs seed)
  moreover from simple have "combined (h2 ! ?r) = None" by (simp add: constructor_seeded)
  ultimately have "stringify h2 ?r =
      Some (canonical_text (\<lambda>k'. map snd (filter (\<lambda>f. fst f = k') ((k, v) # fs))))"
    by (simp add: stringify_simple stringify_parts_canonical)
  with b run show ?thesis by blast
qed

theorem stringify_built_witness:
  "valid_sequence [(Element, ''a''), (Id, ''b''), (Class, ''c''), (Class, ''c2''), (Attr, ''d''),
     (PseudoClass, ''e''), (PseudoElement, ''f'')] \<and>
   (\<exists>r h1 h2. builder Element (Some ''a'') [] = (Inr r, h1) \<and>
      run_adds [(Id, ''b''), (Class, ''c''), (Class, ''c2''), (Attr, ''d''),
        (PseudoClass, ''e''), (PseudoElement, ''f'')] r h1 = (Inr r, h2) \<and>
      stringify h2 r = Some ''a#b.c.c2[d]:e::f'')"
proof -
  have v: "valid_sequence [(Element, ''a''), (Id, ''b''), (Class, ''c''), (Class, ''c2''),
     (Attr, ''d''), (PseudoClass, ''e''), (PseudoElement, ''f'')]"
    by (simp add: valid_sequence_def)
  from stringify_built [OF v, of "[]"] have
    "\<exists>r h1 h2. builder Element (Some ''a'') [] = (Inr r, h1) \<and>
      run_adds [(Id, ''b''), (Class, ''c''), (Class, ''c2''), (Attr, ''d''),
        (PseudoClass, ''e''), (PseudoElement, ''f'')] r h1 = (Inr r, h2) \<and>
      stringify h2 r = Some ''a#b.c.c2[d]:e::f''"
    by (simp add: canonical_text_def)
  with v show ?thesis by blast
qed

text \<open>
  C4: for selectors \<open>a\<close> and \<open>b\<close> of a store, combined or not, and an accepted token
  \<open>t\<close>, \<open>combine(a, t, b)\<close> returns a selector whose string is the string of \<open>a\<close>, a
  space, \<open>t\<close>, a space and the string of \<open>b\<close>; the strings of \<open>a\<close> and \<open>b\<close> are what
  they were before the call.
\<close>

theorem combine_stringify:
  assumes "heap_inv h" and "a < length h" and "b < length h"
    and "t \<in> {'' '', ''+'', ''~'', ''>''}"
  shows "\<exists>c h' sa sb.
           cssSelectorBuilder_combine a t b h = (Inr c, h') \<and>
           stringify h a = Some sa \<and> stringify h b = Some sb \<and>
           stringify h' a = Some sa \<and> stringify h' b = Some sb \<and>
           stringify h' c = Some (sa @ '' '' @ t @ '' '' @ sb)"
  using assms(1-3) by (rule combine_stringify_any)

theorem combine_stringify_witness:
  "heap_inv (snd nested) \<and> (4::nat) < length (snd nested) \<and> (2::nat) < length (snd nested) \<and>
   ''~'' \<in> {'' '', ''+'', ''~'', ''>''} \<and>
   (\<exists>c h'. cssSelectorBuilder_combine 4 ''~'' 2 (snd nested) = (Inr c, h') \<and>
      stringify h' c = Some ''div#main + table#data > p ~ div#main + table#data'')"
proof -
  have l4: "(4::nat) < length (snd nested)" and l2: "(2::nat) < length (snd nested)"
    by (simp_all add: nested_eq two_selectors_eq)
  have t: "''~'' \<in> {'' '', ''+'', ''~'', ''>''}" by simp
  from combine_stringify [OF heap_inv_nested l4 l2 t] stringify_nested
  have "\<exists>c h'. cssSelectorBuilder_combine 4 ''~'' 2 (snd nested) = (Inr c, h') \<and>
      stringify h' c = Some ''div#main + table#data > p ~ div#main + table#data''"
    by auto
  with heap_inv_nested l4 l2 t show ?thesis by blast
qed

text \<open>
  C5: a fragment-adding call that throws leaves the store as it was: the stored
  fragments, the kind added last and every string are unchanged.
\<close>

theorem failed_add_leaves_state:
  assumes "invoke (add k v) this h = (Inl e, h')"
  shows "h' = h \<and> parts (h' ! this) = parts (h ! this) \<and>
         lastAdded (h' ! this) = lastAdded (h ! this) \<and>
         (\<forall>r. stringify h' r = stringify h r)"
proof -
  from assms have "fst (invoke (add k v) this h) = Inl e" and "snd (invoke (add k v) this h) = h'"
    by simp_all
  with invoke_add_fail have "h' = h" by blast
  then show ?thesis by simp
qed

theorem failed_add_leaves_state_witness:
  "invoke (add Element ''span'') 0 (snd div_main) = (Inl OrderViolationError, snd div_main) \<and>
   stringify (snd div_main) 0 = Some ''div#main''"
proof -
  have run: "invoke (add Element ''span'') 0 (snd div_main) = (Inl OrderViolationError, snd div_main)"
    by (simp add: div_main_eq run_defs)
  have "stringify (snd div_main) 0 = Some ''div#main''"
    by (simp add: div_main_eq stringify_simple stringify_parts_def outputOrder_def)
  with failed_add_leaves_state [OF run] run show ?thesis by simp
qed

text \<open>
  C6, as stated: on every selector, consecutive \<open>class\<close> calls each succeed. It fails
  on the code: on \<open>pseudoElement('after')\<close> the call \<open>.class('a')\<close> throws the order error.
\<close>

theorem repeated_class_counterexample:
  "fst (cssSelectorBuilder_pseudoElement (Some ''after'') []) = Inr 0 \<and>
   fst (invoke (class_m ''a'') 0 (snd (cssSelectorBuilder_pseudoElement (Some ''after'') [])))
     = Inl OrderViolationError"
  by (simp add: run_defs)

text \<open>
  C6, amended: on a selector whose kind added last does not rank above \<open>class\<close>
  (respectively \<open>attr\<close>, \<open>pseudoClass\<close>), any number of consecutive calls of that kind
  each succeed and the values are stored in the order added; when the selector is not a
  combined one, its string afterwards is its string before with the decorated values
  inserted, in that order, in one run.
\<close>

theorem repeated_kind_succeeds:
  assumes "this < length h" and "k \<in> {Class, Attr, PseudoClass}"
    and "\<forall>l. lastAdded (h ! this) = Some l \<longrightarrow> rank l \<le> rank k"
  shows "\<exists>h'. run_adds (map (Pair k) vs) this h = (Inr this, h') \<and>
           vals (h' ! this) k = vals (h ! this) k @ vs \<and>
           (combined (h ! this) = None \<longrightarrow>
              (\<exists>pre post. stringify h this = Some (pre @ post) \<and>
                 stringify h' this = Some (pre @ concat (map (decorate k) vs) @ post)))"
proof -
  from run_same_kind_succeeds [OF assms(2,1,3)] obtain h' where
    run: "run_adds (map (Pair k) vs) this h = (Inr this, h')" by blast
  from run_adds_success [OF run assms(1)] have
    vs: "\<And>k'. vals (h' ! this) k' = vals (h ! this) k' @ (if k' = k then vs else [])" and
    simple: "combined (h' ! this) = combined (h ! this)"
    by (simp_all add: filter_same_kind)
  then have eq: "vals (h' ! this) = (\<lambda>k'. vals (h ! this) k' @ (if k' = k then vs else []))"
    by (intro ext)
  from canonical_text_extend [of "vals (h ! this)" k vs] obtain pre post where
    texts: "canonical_text (vals (h ! this)) = pre @ post"
      "canonical_text (vals (h' ! this)) = pre @ concat (map (decorate k) vs) @ post"
    unfolding eq by blast
  have "\<exists>pre post. stringify h this = Some (pre @ post) \<and>
          stringify h' this = Some (pre @ concat (map (decorate k) vs) @ post)"
    if "combined (h ! this) = None"
    using that simple texts by (auto simp add: stringify_simple stringify_parts_canonical)
  with run vs [of k] show ?thesis by auto
qed

theorem repeated_kind_succeeds_witness:
  "(0::nat) < length (snd div_main) \<and> combined (snd div_main ! 0) = None \<and>
   Class \<in> {Class, Attr, PseudoClass} \<and>
   lastAdded (snd div_main ! 0) = Some Id \<and> rank Id \<le> rank Class \<and>
   (\<exists>h'. run_adds (map (Pair Class) [''container'', ''draggable'']) 0 (snd div_main) = (Inr 0, h') \<and>
      vals (h' ! 0) Class = [''container'', ''draggable''] \<and>
      stringify (snd div_main) 0 = Some ''div#main'' \<and>
      stringify h' 0 = Some ''div#main.container.draggable'')"
proof -
  have len: "(0::nat) < length (snd div_main)" and simple: "combined (snd div_main ! 0) = None"
    and last: "lastAdded (snd div_main ! 0) = Some Id"
    by (simp_all add: div_main_eq)
  have k: "Class \<in> {Class, Attr, PseudoClass}" by simp
  from last have ord: "\<forall>l. lastAdded (snd div_main ! 0) = Some l \<longrightarrow> rank l \<le> rank Class"
    by simp
  from repeated_kind_succeeds [OF len k ord, of "[''container'', ''draggable'']"]
  obtain h' where
    *: "run_adds (map (Pair Class) [''container'', ''draggable'']) 0 (snd div_main) = (Inr 0, h')"
       "vals (h' ! 0) Class = vals (snd div_main ! 0) Class @ [''container'', ''draggable'']"
    by blast
  have run: "stringify (snd (run_adds (map (Pair Class) [''container'', ''draggable'']) 0 (snd div_main))) 0
      = Some ''div#main.container.draggable''"
    by (simp add: div_main_eq run_defs stringify_eval)
  have old: "stringify (snd div_main) 0 = Some ''div#main''"
    by (simp add: div_main_eq stringify_eval)
  have "vals (snd div_main ! 0) Class = []" by (simp add: div_main_eq vals_def)
  with * run old have "\<exists>h'. run_adds (map (Pair Class) [''container'', ''draggable'']) 0 (snd div_main) = (Inr 0, h') \<and>
      vals (h' ! 0) Class = [''container'', ''draggable''] \<and>
      stringify (snd div_main) 0 = Some ''div#main'' \<and>
      stringify h' 0 = Some ''div#main.container.draggable''" by simp
  with len simple k last show ?thesis by simp
qed

text \<open>
  C7, as stated: for every value, a facade entry point returns a selector that holds
  exactly one fragment. It fails on the code for \<open>null\<close> and for a call without an
  argument: the constructor seeds the selector only when the value is not \<open>null\<close>, so
  \<open>element()\<close> returns a selector with no fragment and no kind added last.
\<close>

theorem facade_null_counterexample:
  "fst (cssSelectorBuilder_element None []) = Inr 0 \<and>
   parts (snd (cssSelectorBuilder_element None []) ! 0) Element = None \<and>
   vals (snd (cssSelectorBuilder_element None []) ! 0) Element = [] \<and>
   lastAdded (snd (cssSelectorBuilder_element None []) ! 0) = None \<and>
   stringify (snd (cssSelectorBuilder_element None [])) 0 = Some ''''"
  by (simp add: run_defs vals_def stringify_eval)

text \<open>
  C7, amended: a facade entry point returns a selector at an address that no selector of
  the store has, not combined, and leaves the selectors of the store untouched; no later
  facade call returns that address. When the value is a string, the selector holds
  exactly that one fragment, of the kind of the entry point, and that kind is its kind
  added last.
\<close>

theorem facade_fresh_node:
  "\<exists>r h'. builder k v h = (Inr r, h') \<and> r = length h \<and> length h' = Suc (length h) \<and>
     (\<forall>i < length h. h' ! i = h ! i) \<and> combined (h' ! r) = None \<and>
     (\<forall>s. v = Some s \<longrightarrow> parts (h' ! r) = [k \<mapsto> [s]] \<and> lastAdded (h' ! r) = Some k) \<and>
     (\<forall>h2 k2 v2 r2 h3. api_step\<^sup>*\<^sup>* h' h2 \<and> builder k2 v2 h2 = (Inr r2, h3) \<longrightarrow> r2 \<noteq> r)"
proof -
  let ?h' = "h @ [constructor v (Some k)]"
  have later: "r2 \<noteq> length h" if "api_step\<^sup>*\<^sup>* ?h' h2" and "builder k2 v2 h2 = (Inr r2, h3)"
    for h2 k2 v2 r2 h3
  proof -
    from api_steps_length [OF that(1)] have "length h < length h2" by simp
    moreover from that(2) have "r2 = length h2" by (simp add: builder_eq)
    ultimately show ?thesis by simp
  qed
  have simple: "combined (constructor v (Some k)) = None"
    by (cases v) (simp_all add: constructor_seeded constructor_unseeded)
  have seeded: "\<forall>s. v = Some s \<longrightarrow>
      parts (?h' ! length h) = [k \<mapsto> [s]] \<and> lastAdded (?h' ! length h) = Some k"
    by (simp add: constructor_seeded)
  have old: "\<forall>i < length h. ?h' ! i = h ! i" by (simp add: nth_append)
  have b: "builder k v h = (Inr (length h), ?h')" by (rule builder_eq)
  have "builder k v h = (Inr (length h), ?h') \<and> length h = length h \<and>
     length ?h' = Suc (length h) \<and> (\<forall>i < length h. ?h' ! i = h ! i) \<and>
     combined (?h' ! length h) = None \<and>
     (\<forall>s. v = Some s \<longrightarrow>
        parts (?h' ! length h) = [k \<mapsto> [s]] \<and> lastAdded (?h' ! length h) = Some k) \<and>
     (\<forall>h2 k2 v2 r2 h3. api_step\<^sup>*\<^sup>* ?h' h2 \<and> builder k2 v2 h2 = (Inr r2, h3)
        \<longrightarrow> r2 \<noteq> length h)"
    using b seeded old simple later by (intro conjI) (simp_all, blast)
  then show ?thesis
    by (intro exI [where x = "length h"] exI [where x = "h @ [constructor v (Some k)]"])
qed

theorem facade_fresh_node_witness:
  "fst (builder Id (Some ''main'') []) = Inr 0 \<and>
   parts (snd (builder Id (Some ''main'') []) ! 0) = [Id \<mapsto> [''main'']] \<and>
   lastAdded (snd (builder Id (Some ''main'') []) ! 0) = Some Id \<and>
   fst (builder Class None (snd (builder Id (Some ''main'') []))) \<noteq> fst (builder Id (Some ''main'') [])"
proof -
  from facade_fresh_node [of Id "Some ''main''" "[]"] obtain r h' where
    b: "builder Id (Some ''main'') [] = (Inr r, h')" and r: "r = length ([]::heap)"
    and seeded: "\<forall>s. Some ''main'' = Some s \<longrightarrow>
        parts (h' ! r) = [Id \<mapsto> [s]] \<and> lastAdded (h' ! r) = Some Id"
    and later: "\<forall>h2 k2 v2 r2 h3. api_step\<^sup>*\<^sup>* h' h2 \<and> builder k2 v2 h2 = (Inr r2, h3) \<longrightarrow> r2 \<noteq> r"
    by (elim exE conjE)
  have next_call: "builder Class None h' = (Inr (length h'), h' @ [constructor None (Some Class)])"
    by (rule builder_eq)
  have "length h' \<noteq> r"
    by (rule later [rule_format, of h' Class None "length h'" "h' @ [constructor None (Some Class)]"])
      (use next_call in simp)
  with next_call have differ: "fst (builder Class None h') \<noteq> Inr r" by simp
  from seeded have "parts (h' ! r) = [Id \<mapsto> [''main'']]" "lastAdded (h' ! r) = Some Id"
    by simp_all
  with b r differ show ?thesis by simp
qed

text \<open>
  C8: the two documented scenarios, run in any store:
  \<open>id('main').class('container').class('editable').stringify()\<close> and
  \<open>combine(element('div').id('main'), '+', element('table').id('data')).stringify()\<close>.
\<close>

theorem documented_scenarios:
  "stringify_result
     (and_then (and_then (cssSelectorBuilder_id (Some ''main'') h) (invoke (class_m ''container'')))
        (invoke (class_m ''editable'')))
     = Inr (Some ''#main.container.editable'') \<and>
   stringify_result
     (and_then (and_then (cssSelectorBuilder_element (Some ''div'') h) (invoke (id_m ''main'')))
        (\<lambda>a h1. and_then
           (and_then (cssSelectorBuilder_element (Some ''table'') h1) (invoke (id_m ''data'')))
           (\<lambda>b. cssSelectorBuilder_combine a ''+'' b)))
     = Inr (Some ''div#main + table#data'')"
  by (simp add: stringify_result_def run_defs cssSelectorBuilder_combine_def nth_append
      stringify.simps stringify_parts_def outputOrder_def)

text \<open>
  C9: \<open>combine\<close> accepts every token: it returns normally, stores the token as given,
  and the string of the result has the token between two single spaces.
\<close>

theorem combine_accepts_any_token:
  assumes "heap_inv h" and "a < length h" and "b < length h"
  shows "\<exists>c h' sa sb.
           cssSelectorBuilder_combine a t b h = (Inr c, h') \<and>
           combined (h' ! c) = Some \<lparr>selector1 = a, combinator = t, selector2 = b\<rparr> \<and>
           stringify h' a = Some sa \<and> stringify h' b = Some sb \<and>
           stringify h' c = Some (sa @ '' '' @ t @ '' '' @ sb)"
proof -
  from combine_stringify_any [OF assms, of t] obtain c h' sa sb where
    *: "cssSelectorBuilder_combine a t b h = (Inr c, h')"
       "stringify h' a = Some sa" "stringify h' b = Some sb"
       "stringify h' c = Some (sa @ '' '' @ t @ '' '' @ sb)" by blast
  from *(1) have "combined (h' ! c) = Some \<lparr>selector1 = a, combinator = t, selector2 = b\<rparr>"
    by (auto simp add: cssSelectorBuilder_combine_eq)
  with * show ?thesis by blast
qed

theorem combine_accepts_any_token_witness:
  "heap_inv two_selectors \<and> (0::nat) < length two_selectors \<and> (1::nat) < length two_selectors \<and>
   ''=>'' \<notin> {'' '', ''+'', ''~'', ''>''} \<and>
   (\<exists>c h'. cssSelectorBuilder_combine 0 ''=>'' 1 two_selectors = (Inr c, h') \<and>
      stringify h' c = Some ''div#main => table#data'')"
proof -
  have l0: "(0::nat) < length two_selectors" and l1: "(1::nat) < length two_selectors"
    by (simp_all add: two_selectors_eq)
  have t: "''=>'' \<notin> {'' '', ''+'', ''~'', ''>''}" by simp
  from combine_accepts_any_token [OF heap_inv_two_selectors l0 l1, of "''=>''"] obtain c h' sa sb
    where *: "cssSelectorBuilder_combine 0 ''=>'' 1 two_selectors = (Inr c, h')"
      "stringify h' 0 = Some sa" "stringify h' 1 = Some sb"
      "stringify h' c = Some (sa @ '' '' @ ''=>'' @ '' '' @ sb)" by blast
  from *(1) have h': "h' = two_selectors @ [h' ! 2]" and c: "c = 2"
    by (auto simp add: cssSelectorBuilder_combine_eq two_selectors_eq)
  have "stringify h' 0 = Some ''div#main''" "stringify h' 1 = Some ''table#data''"
    by (subst h', simp add: two_selectors_eq stringify_eval)+
  with * have "stringify h' c = Some ''div#main => table#data''" by simp
  with * heap_inv_two_selectors l0 l1 t show ?thesis by blast
qed

text \<open>
  C10, as stated: a fragment added with success to a side of a combined selector changes
  the string of the combined selector. It fails on the code in two cases. Where the side
  is itself a combined selector the call can succeed, and \<open>stringify\<close> never reads the
  fragments of a combined selector. Where the side was made by \<open>element()\<close> without a
  value, \<open>element('')\<close> succeeds on it and adds the empty text.
\<close>

theorem combined_by_reference_counterexample:
  "fst nested = Inr 4 \<and>
   combined (snd nested ! 4) = Some \<lparr>selector1 = 2, combinator = ''>'', selector2 = 3\<rparr> \<and>
   stringify (snd nested) 4 = Some ''div#main + table#data > p'' \<and>
   fst (invoke (class_m ''x'') 2 (snd nested)) = Inr 2 \<and>
   parts (snd (invoke (class_m ''x'') 2 (snd nested)) ! 2) Class = Some [''x''] \<and>
   stringify (snd (invoke (class_m ''x'') 2 (snd nested))) 4 = Some ''div#main + table#data > p'' \<and>
   fst unseeded = Inr 2 \<and>
   combined (snd unseeded ! 2) = Some \<lparr>selector1 = 0, combinator = ''>'', selector2 = 1\<rparr> \<and>
   combined (snd unseeded ! 0) = None \<and>
   stringify (snd unseeded) 2 = Some '' > p'' \<and>
   fst (invoke (element '''') 0 (snd unseeded)) = Inr 0 \<and>
   parts (snd (invoke (element '''') 0 (snd unseeded)) ! 0) Element = Some [''''] \<and>
   stringify (snd (invoke (element '''') 0 (snd unseeded))) 2 = Some '' > p''"
  by (simp add: nested_def two_selectors_def div_main_eq unseeded_eq run_defs
      cssSelectorBuilder_combine_def stringify.simps stringify_parts_def outputOrder_def)

text \<open>
  C10, amended: a combined selector holds the addresses of its sides, so its string is
  computed from their state when \<open>stringify\<close> is called; a fragment whose decorated text
  is not empty, added with success to a side that is not itself combined, changes the
  string of that side and of the combined selector.
\<close>

theorem combined_by_reference:
  assumes "heap_inv h" and "c < length h" and "combined (h ! c) = Some comb"
    and "x = selector1 comb \<or> x = selector2 comb" and "combined (h ! x) = None"
    and "invoke (add k v) x h = (Inr r, h')" and "decorate k v \<noteq> []"
  shows "\<exists>sa sb. stringify h' (selector1 comb) = Some sa \<and>
           stringify h' (selector2 comb) = Some sb \<and>
           stringify h' c = Some (sa @ '' '' @ combinator comb @ '' '' @ sb) \<and>
           stringify h' x \<noteq> stringify h x \<and>
           stringify h' c \<noteq> stringify h c"
proof -
  from heap_inv_refs [OF assms(1,2,3)] have lt: "selector1 comb < c" "selector2 comb < c"
    by simp_all
  with assms(2,4) have x: "x < length h" and xc: "x \<noteq> c" by auto
  from lt assms(2) have s1: "selector1 comb < length h" and s2: "selector2 comb < length h"
    by simp_all
  let ?obj = "snd (add k v (h ! x))"
  from invoke_add_Inr [OF assms(6)] obtain u where
    h': "h' = h[x := ?obj]" and ok: "add k v (h ! x) = (Inr u, ?obj)" by blast
  have simple': "combined ?obj = None"
    using add_success_fields(2) [OF ok] assms(5) by simp
  have "vals ?obj = (\<lambda>k'. vals (h ! x) k' @ (if k' = k then [v] else []))"
    by (rule ext) (rule add_success_vals [OF ok])
  then have len_obj: "length (stringify_parts ?obj)
      = length (stringify_parts (h ! x)) + length (decorate k v)"
    by (simp add: stringify_parts_canonical canonical_text_length_add)
  from assms(7) have pos: "0 < length (decorate k v)" by simp
  from len_obj have le: "length (stringify_parts (h ! x)) \<le> length (stringify_parts ?obj)"
    by simp
  note grows = stringify_grows [OF assms(1) x assms(5) simple' le]
  from grows [OF s1] obtain a a' where
    a: "stringify h (selector1 comb) = Some a" "stringify h' (selector1 comb) = Some a'"
       "length a \<le> length a'" unfolding h' by blast
  from grows [OF s2] obtain b b' where
    b: "stringify h (selector2 comb) = Some b" "stringify h' (selector2 comb) = Some b'"
       "length b \<le> length b'" unfolding h' by blast
  have old_x: "stringify h x = Some (stringify_parts (h ! x))"
    using assms(5) by (simp add: stringify_simple)
  have new_x: "stringify h' x = Some (stringify_parts ?obj)"
    using simple' x by (simp add: h' stringify_simple)
  from old_x new_x len_obj pos have changed_x: "stringify h' x \<noteq> stringify h x"
    by auto
  from xc assms(3) have "combined (h' ! c) = Some comb" by (simp add: h')
  from stringify_combined [OF this] a b
  have new_c: "stringify h' c = Some (a' @ '' '' @ combinator comb @ '' '' @ b')" by simp
  from stringify_combined [OF assms(3)] a b
  have old_c: "stringify h c = Some (a @ '' '' @ combinator comb @ '' '' @ b)" by simp
  have "length a < length a' \<or> length b < length b'"
    using assms(4) old_x new_x len_obj pos a b by auto
  with a(3) b(3) have "length (a @ '' '' @ combinator comb @ '' '' @ b)
      < length (a' @ '' '' @ combinator comb @ '' '' @ b')" by auto
  then have "a' @ '' '' @ combinator comb @ '' '' @ b' \<noteq> a @ '' '' @ combinator comb @ '' '' @ b"
    by (metis less_irrefl)
  with old_c new_c have "stringify h' c \<noteq> stringify h c" by simp
  with a b new_c changed_x show ?thesis by blast
qed

theorem combined_by_reference_witness:
  "heap_inv (snd nested) \<and> (4::nat) < length (snd nested) \<and>
   combined (snd nested ! 4) = Some \<lparr>selector1 = 2, combinator = ''>'', selector2 = 3\<rparr> \<and>
   combined (snd nested ! 3) = None \<and>
   fst (invoke (add Class ''x'') 3 (snd nested)) = Inr 3 \<and>
   decorate Class ''x'' \<noteq> [] \<and>
   stringify (snd nested) 4 = Some ''div#main + table#data > p'' \<and>
   stringify (snd (invoke (add Class ''x'') 3 (snd nested))) 4
     = Some ''div#main + table#data > p.x''"
proof -
  let ?comb = "\<lparr>selector1 = 2, combinator = ''>'', selector2 = 3\<rparr>"
  have l4: "(4::nat) < length (snd nested)"
    and c: "combined (snd nested ! 4) = Some ?comb"
    and x: "combined (snd nested ! 3) = None"
    by (simp_all add: nested_eq two_selectors_eq)
  have side: "3 = selector1 ?comb \<or> 3 = selector2 ?comb" by simp
  have run: "invoke (add Class ''x'') 3 (snd nested)
      = (Inr 3, snd (invoke (add Class ''x'') 3 (snd nested)))"
    by (simp add: nested_eq two_selectors_eq run_defs)
  have nonempty: "decorate Class ''x'' \<noteq> []" by simp
  have new: "stringify (snd (invoke (add Class ''x'') 3 (snd nested))) 4
     = Some ''div#main + table#data > p.x''"
    by (simp add: nested_eq two_selectors_eq run_defs stringify_eval)
  have ret: "fst (invoke (add Class ''x'') 3 (snd nested)) = Inr 3"
    by (subst run) simp
  from combined_by_reference [OF heap_inv_nested l4 c side x run nonempty] new stringify_nested(3)
    heap_inv_nested l4 c x ret
  show ?thesis by simp
qed

end
